theory Spec2Isabelle
  imports Main "HOL-Library.Word"
begin

unbundle bit_operations_syntax

section \<open>Text primitives\<close>

text \<open>
  The descriptor text is a Python \<open>str\<close>; it is modelled as a \<open>string\<close>, one list
  element per character. The two control characters of the record templates:
\<close>

definition TAB :: char where
  "TAB = CHR 0x09"

definition NL :: char where
  "NL = CHR 0x0A"

definition DQ :: char where
  "DQ = CHR 0x22"

fun startswith :: "string \<Rightarrow> string \<Rightarrow> bool" where
  "startswith s [] = True"
| "startswith [] (p # ps) = False"
| "startswith (c # cs) (p # ps) = (c = p \<and> startswith cs ps)"

text \<open>
  Python slices \<open>s[:i]\<close> and \<open>s[i:]\<close> for an integer \<open>i\<close>: a negative index
  counts from the end and is clipped at the start of the text.
\<close>

definition slice_to :: "string \<Rightarrow> int \<Rightarrow> string" where
  "slice_to s i = (if i < 0 then take (nat (int (length s) + i)) s else take (nat i) s)"

definition slice_from :: "string \<Rightarrow> int \<Rightarrow> string" where
  "slice_from s i = (if i < 0 then drop (nat (int (length s) + i)) s else drop (nat i) s)"

text \<open>\<open>content[:pos] + ''.join(new) + content[pos:]\<close>\<close>

definition splice :: "string \<Rightarrow> int \<Rightarrow> string list \<Rightarrow> string" where
  "splice content pos new = slice_to content pos @ concat new @ slice_from content pos"

section \<open>Identifier generator\<close>

text \<open>
  \<open>uuid.uuid4()\<close> draws a random 128-bit value; the value drawn is an input of the
  model. \<open>.hex\<close> renders it as 32 lowercase hexadecimal digits, most significant
  first.
\<close>

type_synonym uuid = "128 word"

definition hex_digit :: "nat \<Rightarrow> char" where
  "hex_digit n = ''0123456789abcdef'' ! (n mod 16)"

definition nibble :: "uuid \<Rightarrow> nat \<Rightarrow> nat" where
  "nibble u i = unat (drop_bit (4 * i) u AND 15)"

definition uuid_hex :: "uuid \<Rightarrow> string" where
  "uuid_hex u = map (\<lambda>i. hex_digit (nibble u i)) (rev [0..<32])"

text \<open>Version 4 and the RFC 4122 variant, the bits \<open>uuid4\<close> fixes in what it returns.\<close>

definition is_uuid4 :: "uuid \<Rightarrow> bool" where
  "is_uuid4 u = (nibble u 19 = 4 \<and> nibble u 15 div 4 = 2)"

definition upper_char :: "char \<Rightarrow> char" where
  "upper_char c =
     (if c = CHR ''a'' then CHR ''A'' else if c = CHR ''b'' then CHR ''B''
      else if c = CHR ''c'' then CHR ''C'' else if c = CHR ''d'' then CHR ''D''
      else if c = CHR ''e'' then CHR ''E'' else if c = CHR ''f'' then CHR ''F''
      else if c = CHR ''g'' then CHR ''G'' else if c = CHR ''h'' then CHR ''H''
      else if c = CHR ''i'' then CHR ''I'' else if c = CHR ''j'' then CHR ''J''
      else if c = CHR ''k'' then CHR ''K'' else if c = CHR ''l'' then CHR ''L''
      else if c = CHR ''m'' then CHR ''M'' else if c = CHR ''n'' then CHR ''N''
      else if c = CHR ''o'' then CHR ''O'' else if c = CHR ''p'' then CHR ''P''
      else if c = CHR ''q'' then CHR ''Q'' else if c = CHR ''r'' then CHR ''R''
      else if c = CHR ''s'' then CHR ''S'' else if c = CHR ''t'' then CHR ''T''
      else if c = CHR ''u'' then CHR ''U'' else if c = CHR ''v'' then CHR ''V''
      else if c = CHR ''w'' then CHR ''W'' else if c = CHR ''x'' then CHR ''X''
      else if c = CHR ''y'' then CHR ''Y'' else if c = CHR ''z'' then CHR ''Z''
      else c)"

definition upper :: "string \<Rightarrow> string" where
  "upper s = map upper_char s"

text \<open>\<open>''.join(s)\<close> of a string joins its characters with the empty separator.\<close>

definition join_chars :: "string \<Rightarrow> string" where
  "join_chars s = concat (map (\<lambda>c. [c]) s)"

text \<open>\<open>return ''.join(f'{uuid.uuid4().hex}'.upper())[:24]\<close>\<close>

definition generate_uuid :: "uuid \<Rightarrow> string" where
  "generate_uuid u = take 24 (join_chars (upper (uuid_hex u)))"

text \<open>The character class \<open>[A-F0-9]\<close>.\<close>

definition is_upper_hex :: "char \<Rightarrow> bool" where
  "is_upper_hex c = (c \<in> set ''ABCDEF0123456789'')"

section \<open>Regular-expression search\<close>

text \<open>
  The four patterns of the script use only literals, one counted character class, the
  lazy \<open>.*?\<close> (under \<open>re.DOTALL\<close>, so the dot takes every character) and greedy
  negated classes \<open>[^}]+\<close>, \<open>[^)]+\<close>. The matcher below follows the backtracking
  order of Python's \<open>re\<close> for exactly these constructs; each piece takes the rest of
  the pattern as a continuation on the remaining text and returns how many characters
  were consumed.

  \<open>scan k s\<close> tries \<open>k\<close> on \<open>s\<close>, then on \<open>s\<close> without its first character, and so
  on up to the empty suffix, and stops at the first success. It is both the outer loop
  of \<open>re.search\<close> over the start offsets and the lazy \<open>.*?\<close>, which tries to skip
  0, 1, 2, ... characters.
\<close>

fun scan :: "(string \<Rightarrow> 'a option) \<Rightarrow> string \<Rightarrow> (nat \<times> 'a) option" where
  "scan k [] = map_option (Pair 0) (k [])"
| "scan k (c # cs) =
     (case k (c # cs) of
        Some r \<Rightarrow> Some (0, r)
      | None \<Rightarrow> map_option (apfst Suc) (scan k cs))"

text \<open>A literal at the end of a pattern.\<close>

definition lit :: "string \<Rightarrow> string \<Rightarrow> nat option" where
  "lit l s = (if startswith s l then Some (length l) else None)"

text \<open>
  A greedy \<open>[...]+\<close>: take the longest run of characters of the class, then give
  characters back one at a time until the continuation succeeds, keeping at least one.
\<close>

fun backtrack :: "(string \<Rightarrow> 'a option) \<Rightarrow> string \<Rightarrow> nat \<Rightarrow> (nat \<times> 'a) option" where
  "backtrack k s 0 = None"
| "backtrack k s (Suc n) =
     (case k (drop (Suc n) s) of
        Some r \<Rightarrow> Some (Suc n, r)
      | None \<Rightarrow> backtrack k s n)"

definition greedy_plus :: "(char \<Rightarrow> bool) \<Rightarrow> (string \<Rightarrow> 'a option) \<Rightarrow> string \<Rightarrow> (nat \<times> 'a) option" where
  "greedy_plus cls k s = backtrack k s (length (takeWhile cls s))"

text \<open>
  A counted class \<open>[...]{n}\<close>: exactly \<open>n\<close> characters of the class, and the text after
  them.
\<close>

fun counted :: "(char \<Rightarrow> bool) \<Rightarrow> nat \<Rightarrow> string \<Rightarrow> string option" where
  "counted cls 0 s = Some s"
| "counted cls (Suc n) [] = None"
| "counted cls (Suc n) (c # cs) = (if cls c then counted cls n cs else None)"

text \<open>
  \<open>(/\* Begin X section \*/.*?/\* End X section \*/)\<close> tried at the start of \<open>s\<close>:
  the length of the match.
\<close>

definition begin_marker :: "string \<Rightarrow> string" where
  "begin_marker name = ''/* Begin '' @ name @ '' section */''"

definition end_marker :: "string \<Rightarrow> string" where
  "end_marker name = ''/* End '' @ name @ '' section */''"

definition match_section :: "string \<Rightarrow> string \<Rightarrow> nat option" where
  "match_section name s =
     (if startswith s (begin_marker name) then
        case scan (lit (end_marker name)) (drop (length (begin_marker name)) s) of
          Some (skipped, n) \<Rightarrow> Some (length (begin_marker name) + skipped + n)
        | None \<Rightarrow> None
      else None)"

text \<open>\<open>re.search\<close> of that pattern: \<open>(match.start(), match.end())\<close>.\<close>

definition search_section :: "string \<Rightarrow> string \<Rightarrow> (nat \<times> nat) option" where
  "search_section name content =
     (case scan (match_section name) content of
        Some (start, n) \<Rightarrow> Some (start, start + n)
      | None \<Rightarrow> None)"

text \<open>
  \<open>([A-F0-9]{24}) /\* LABEL \*/ = \{[^}]+FIELD = \(([^)]+)\);\<close> tried at the start of
  \<open>s\<close>: the end of group 2 and the end of the match.
\<close>

definition match_list_field :: "string \<Rightarrow> string \<Rightarrow> (nat \<times> nat) option" where
  "match_list_field field r =
     (let key = field @ '' = ('' in
      if startswith r key then
        case greedy_plus (\<lambda>c. c \<noteq> CHR '')'') (lit '');'') (drop (length key) r) of
          Some (m, n) \<Rightarrow> Some (length key + m, length key + m + n)
        | None \<Rightarrow> None
      else None)"

definition match_list_record :: "string \<Rightarrow> string \<Rightarrow> string \<Rightarrow> (nat \<times> nat) option" where
  "match_list_record label field s =
     (let head = '' /* '' @ label @ '' */ = {'' in
      case counted is_upper_hex 24 s of
        None \<Rightarrow> None
      | Some r \<Rightarrow>
          if startswith r head then
            case greedy_plus (\<lambda>c. c \<noteq> CHR ''}'') (match_list_field field)
                   (drop (length head) r) of
              Some (n, g2, e) \<Rightarrow> Some (24 + length head + n + g2, 24 + length head + n + e)
            | None \<Rightarrow> None
          else None)"

text \<open>\<open>re.search\<close> of that pattern: \<open>(match.start(), match.end(2), match.end())\<close>.\<close>

definition search_list_record :: "string \<Rightarrow> string \<Rightarrow> string \<Rightarrow> (nat \<times> nat \<times> nat) option" where
  "search_list_record label field content =
     (case scan (match_list_record label field) content of
        Some (start, g2, e) \<Rightarrow> Some (start, start + g2, start + e)
      | None \<Rightarrow> None)"

section \<open>Record templates\<close>

datatype region = PBXFileReference_section | Models_group | Sources_build_phase | PBXBuildFile_section

datatype error = Could_not_find region | KeyError string | FileNotFoundError string

definition lookup :: "(string \<rightharpoonup> string) \<Rightarrow> string \<Rightarrow> error + string" where
  "lookup d k = (case d k of None \<Rightarrow> Inl (KeyError k) | Some v \<Rightarrow> Inr v)"

definition file_ref_record :: "string \<Rightarrow> string \<Rightarrow> string" where
  "file_ref_record ref filename =
     [TAB, TAB] @ ref @ '' /* '' @ filename
       @ '' */ = {isa = PBXFileReference; lastKnownFileType = sourcecode.swift; path = ''
       @ filename @ ''; sourceTree = '' @ [DQ] @ ''<group>'' @ [DQ] @ ''; };'' @ [NL]"

definition child_record :: "string \<Rightarrow> string \<Rightarrow> string" where
  "child_record ref filename =
     [TAB, TAB, TAB, TAB] @ ref @ '' /* '' @ filename @ '' */,'' @ [NL]"

definition build_file_record :: "string \<Rightarrow> string \<Rightarrow> string" where
  "build_file_record bref filename =
     [TAB, TAB, TAB, TAB] @ bref @ '' /* '' @ filename @ '' in Sources */,'' @ [NL]"

definition pbx_build_file_record :: "string \<Rightarrow> string \<Rightarrow> string \<Rightarrow> string" where
  "pbx_build_file_record bref ref filename =
     [TAB, TAB] @ bref @ '' /* '' @ filename @ '' in Sources */ = {isa = PBXBuildFile; fileRef = ''
       @ ref @ '' /* '' @ filename @ '' */; };'' @ [NL]"

text \<open>The body of the four rendering loops, with the dictionary lookups they do.\<close>

definition new_ref :: "(string \<rightharpoonup> string) \<Rightarrow> string \<Rightarrow> error + string" where
  "new_ref file_refs filename =
     (case lookup file_refs filename of
        Inl e \<Rightarrow> Inl e
      | Inr ref \<Rightarrow> Inr (file_ref_record ref filename))"

definition new_child :: "(string \<rightharpoonup> string) \<Rightarrow> string \<Rightarrow> error + string" where
  "new_child file_refs filename =
     (case lookup file_refs filename of
        Inl e \<Rightarrow> Inl e
      | Inr ref \<Rightarrow> Inr (child_record ref filename))"

definition new_build :: "(string \<rightharpoonup> string) \<Rightarrow> string \<Rightarrow> error + string" where
  "new_build build_refs filename =
     (case lookup build_refs filename of
        Inl e \<Rightarrow> Inl e
      | Inr bref \<Rightarrow> Inr (build_file_record bref filename))"

definition new_pbx_build :: "(string \<rightharpoonup> string) \<Rightarrow> (string \<rightharpoonup> string) \<Rightarrow> string \<Rightarrow> error + string" where
  "new_pbx_build file_refs build_refs filename =
     (case lookup build_refs filename of
        Inl e \<Rightarrow> Inl e
      | Inr bref \<Rightarrow>
          (case lookup file_refs filename of
             Inl e \<Rightarrow> Inl e
           | Inr ref \<Rightarrow> Inr (pbx_build_file_record bref ref filename)))"

text \<open>\<open>for filename in files_to_add: new.append(render(filename))\<close>\<close>

fun render_all :: "(string \<Rightarrow> error + string) \<Rightarrow> string list \<Rightarrow> error + string list" where
  "render_all render [] = Inr []"
| "render_all render (filename # rest) =
     (case render filename of
        Inl e \<Rightarrow> Inl e
      | Inr x \<Rightarrow> (case render_all render rest of Inl e \<Rightarrow> Inl e | Inr xs \<Rightarrow> Inr (x # xs)))"

section \<open>The patcher\<close>

text \<open>
  Lines 21 to 27: two identifiers per filename, stored under the filename. \<open>rnd k\<close> is
  the value the \<open>k\<close>-th call of \<open>uuid.uuid4()\<close> of the run returns.
\<close>

fun generate_ids ::
  "(nat \<Rightarrow> uuid) \<Rightarrow> nat \<Rightarrow> string list \<Rightarrow> (string \<rightharpoonup> string) \<Rightarrow> (string \<rightharpoonup> string)
     \<Rightarrow> (string \<rightharpoonup> string) \<times> (string \<rightharpoonup> string)" where
  "generate_ids rnd k [] file_refs build_refs = (file_refs, build_refs)"
| "generate_ids rnd k (filename # rest) file_refs build_refs =
     generate_ids rnd (k + 2) rest
       (file_refs(filename \<mapsto> generate_uuid (rnd k)))
       (build_refs(filename \<mapsto> generate_uuid (rnd (k + 1))))"

text \<open>Lines 29 to 51.\<close>

definition insert_file_refs :: "(string \<rightharpoonup> string) \<Rightarrow> string list \<Rightarrow> string \<Rightarrow> error + string" where
  "insert_file_refs file_refs files_to_add content =
     (case search_section ''PBXFileReference'' content of
        None \<Rightarrow> Inl (Could_not_find PBXFileReference_section)
      | Some (start, e) \<Rightarrow>
          (case render_all (new_ref file_refs) files_to_add of
             Inl err \<Rightarrow> Inl err
           | Inr new_file_refs \<Rightarrow>
               let file_ref_insert_pos =
                     int e - int (length (''/* End PBXFileReference section */'' @ [NL]))
               in Inr (splice content file_ref_insert_pos new_file_refs)))"

text \<open>Lines 53 to 75.\<close>

definition insert_children :: "(string \<rightharpoonup> string) \<Rightarrow> string list \<Rightarrow> string \<Rightarrow> error + string" where
  "insert_children file_refs files_to_add content =
     (case search_list_record ''Models'' ''children'' content of
        None \<Rightarrow> Inl (Could_not_find Models_group)
      | Some (start, children_end_pos, e) \<Rightarrow>
          (case render_all (new_child file_refs) files_to_add of
             Inl err \<Rightarrow> Inl err
           | Inr new_children \<Rightarrow> Inr (splice content (int children_end_pos) new_children)))"

text \<open>Lines 77 to 95.\<close>

definition insert_build_files :: "(string \<rightharpoonup> string) \<Rightarrow> string list \<Rightarrow> string \<Rightarrow> error + string" where
  "insert_build_files build_refs files_to_add content =
     (case search_list_record ''Sources'' ''files'' content of
        None \<Rightarrow> Inl (Could_not_find Sources_build_phase)
      | Some (start, files_end_pos, e) \<Rightarrow>
          (case render_all (new_build build_refs) files_to_add of
             Inl err \<Rightarrow> Inl err
           | Inr new_build_files \<Rightarrow> Inr (splice content (int files_end_pos) new_build_files)))"

text \<open>Lines 97 to 115.\<close>

definition insert_pbx_build_files ::
  "(string \<rightharpoonup> string) \<Rightarrow> (string \<rightharpoonup> string) \<Rightarrow> string list \<Rightarrow> string \<Rightarrow> error + string" where
  "insert_pbx_build_files file_refs build_refs files_to_add content =
     (case search_section ''PBXBuildFile'' content of
        None \<Rightarrow> Inl (Could_not_find PBXBuildFile_section)
      | Some (start, e) \<Rightarrow>
          (case render_all (new_pbx_build file_refs build_refs) files_to_add of
             Inl err \<Rightarrow> Inl err
           | Inr new_pbx_build_files \<Rightarrow>
               let build_file_insert_pos =
                     int e - int (length (''/* End PBXBuildFile section */'' @ [NL]))
               in Inr (splice content build_file_insert_pos new_pbx_build_files)))"

text \<open>
  Lines 21 to 115, the transformation of the text held in memory: each step works on
  the text the step before it produced, and the first failure ends the run.
\<close>

definition and_then :: "error + 'a \<Rightarrow> ('a \<Rightarrow> error + 'b) \<Rightarrow> error + 'b" where
  "and_then r f = (case r of Inl e \<Rightarrow> Inl e | Inr x \<Rightarrow> f x)"

definition patch :: "(nat \<Rightarrow> uuid) \<Rightarrow> string \<Rightarrow> string list \<Rightarrow> error + string" where
  "patch rnd content files_to_add =
     (case generate_ids rnd 0 files_to_add Map.empty Map.empty of
        (file_refs, build_refs) \<Rightarrow>
          and_then (insert_file_refs file_refs files_to_add content) (\<lambda>content.
          and_then (insert_children file_refs files_to_add content) (\<lambda>content.
          and_then (insert_build_files build_refs files_to_add content) (\<lambda>content.
          insert_pbx_build_files file_refs build_refs files_to_add content))))"

subsection \<open>Files and console\<close>

text \<open>
  The world outside the function: the content of every existing file, by path, and the
  lines printed so far. Opening a missing file for reading raises; writing replaces the
  content stored under the path.
\<close>

record world =
  files :: "string \<rightharpoonup> string"
  stdout :: "string list"

definition print :: "string \<Rightarrow> world \<Rightarrow> world" where
  "print line w = w\<lparr>stdout := stdout w @ [line]\<rparr>"

definition write_file :: "string \<Rightarrow> string \<Rightarrow> world \<Rightarrow> world" where
  "write_file path content w = w\<lparr>files := (files w)(path \<mapsto> content)\<rparr>"

definition digit_char :: "nat \<Rightarrow> char" where
  "digit_char d = ''0123456789'' ! (d mod 10)"

function str :: "nat \<Rightarrow> string" where
  "str n = (if n < 10 then [digit_char n] else str (n div 10) @ [digit_char (n mod 10)])"
  by pat_completeness auto
termination
  by (relation "measure (\<lambda>n. n)") auto

declare str.simps [simp del]

definition message :: "region \<Rightarrow> string" where
  "message r =
     (case r of
        PBXFileReference_section \<Rightarrow> ''Error: Could not find PBXFileReference section''
      | Models_group \<Rightarrow> ''Error: Could not find Models group''
      | Sources_build_phase \<Rightarrow> ''Error: Could not find Sources build phase''
      | PBXBuildFile_section \<Rightarrow> ''Error: Could not find PBXBuildFile section'')"

text \<open>
  \<open>add_files_to_pbxproj\<close>, lines 15 to 122: the value returned (or the exception
  raised) and the world afterwards.
\<close>

definition add_files_to_pbxproj ::
  "(nat \<Rightarrow> uuid) \<Rightarrow> string \<Rightarrow> string list \<Rightarrow> world \<Rightarrow> (error + bool) \<times> world" where
  "add_files_to_pbxproj rnd pbxproj_path files_to_add w =
     (case files w pbxproj_path of
        None \<Rightarrow> (Inl (FileNotFoundError pbxproj_path), w)
      | Some content \<Rightarrow>
          (case patch rnd content files_to_add of
             Inl (Could_not_find r) \<Rightarrow> (Inr False, print (message r) w)
           | Inl (KeyError k) \<Rightarrow> (Inl (KeyError k), w)
           | Inl (FileNotFoundError p) \<Rightarrow> (Inl (FileNotFoundError p), w)
           | Inr content' \<Rightarrow>
               (Inr True,
                print (''Successfully added '' @ str (length files_to_add)
                         @ '' files to Xcode project'')
                  (write_file pbxproj_path content' w))))"

text \<open>
  The script body, lines 124 to 133: the exit status, or the exception that was not
  caught. The two marks are the UTF-8 bytes of U+2705 and U+274C.
\<close>

datatype outcome = Exit int | Uncaught error

definition check_mark :: string where
  "check_mark = [CHR 0xE2, CHR 0x9C, CHR 0x85]"

definition cross_mark :: string where
  "cross_mark = [CHR 0xE2, CHR 0x9D, CHR 0x8C]"

definition main :: "(nat \<Rightarrow> uuid) \<Rightarrow> world \<Rightarrow> outcome \<times> world" where
  "main rnd w =
     (case add_files_to_pbxproj rnd ''WigiAI.xcodeproj/project.pbxproj''
             [''Activity.swift'', ''ActivityMigration.swift''] w of
        (Inl e, w') \<Rightarrow> (Uncaught e, w')
      | (Inr True, w') \<Rightarrow> (Exit 0, print (check_mark @ '' Files added successfully!'') w')
      | (Inr False, w') \<Rightarrow> (Exit 1, print (cross_mark @ '' Failed to add files'') w'))"

section \<open>Notions used to state the properties\<close>

text \<open>The text \<open>s\<close> with \<open>x\<close> put in at offset \<open>p\<close> and nothing else changed.\<close>

definition insert_at :: "string \<Rightarrow> nat \<Rightarrow> string \<Rightarrow> string" where
  "insert_at s p x = take p s @ x @ drop p s"

text \<open>The offsets at which the literal \<open>l\<close> occurs in \<open>s\<close>, in increasing order.\<close>

definition occurrences :: "string \<Rightarrow> string \<Rightarrow> nat list" where
  "occurrences l s = filter (\<lambda>j. startswith (drop j s) l) [0..<Suc (length s)]"

text \<open>The index of the last occurrence of \<open>x\<close> in \<open>xs\<close> (for an \<open>x\<close> that occurs).\<close>

fun last_index :: "'a list \<Rightarrow> 'a \<Rightarrow> nat" where
  "last_index [] x = 0"
| "last_index (y # ys) x = (if x \<in> set ys then Suc (last_index ys x) else 0)"

text \<open>
  The identifiers a run holds for a filename once the first loop is over: the calls
  of \<open>uuid4\<close> number \<open>2 * i\<close> and \<open>2 * i + 1\<close> belong to the filename at index \<open>i\<close>.
\<close>

definition file_ref_of :: "(nat \<Rightarrow> uuid) \<Rightarrow> string list \<Rightarrow> string \<Rightarrow> string" where
  "file_ref_of rnd fs f = generate_uuid (rnd (2 * last_index fs f))"

definition build_ref_of :: "(nat \<Rightarrow> uuid) \<Rightarrow> string list \<Rightarrow> string \<Rightarrow> string" where
  "build_ref_of rnd fs f = generate_uuid (rnd (2 * last_index fs f + 1))"

text \<open>The four lists of records a run renders, named as in the script.\<close>

definition new_file_refs :: "(nat \<Rightarrow> uuid) \<Rightarrow> string list \<Rightarrow> string list" where
  "new_file_refs rnd fs = map (\<lambda>f. file_ref_record (file_ref_of rnd fs f) f) fs"

definition new_children :: "(nat \<Rightarrow> uuid) \<Rightarrow> string list \<Rightarrow> string list" where
  "new_children rnd fs = map (\<lambda>f. child_record (file_ref_of rnd fs f) f) fs"

definition new_build_files :: "(nat \<Rightarrow> uuid) \<Rightarrow> string list \<Rightarrow> string list" where
  "new_build_files rnd fs = map (\<lambda>f. build_file_record (build_ref_of rnd fs f) f) fs"

definition new_pbx_build_files :: "(nat \<Rightarrow> uuid) \<Rightarrow> string list \<Rightarrow> string list" where
  "new_pbx_build_files rnd fs =
     map (\<lambda>f. pbx_build_file_record (build_ref_of rnd fs f) (file_ref_of rnd fs f) f) fs"

section \<open>Properties of the identifier generator\<close>

lemma join_chars_id: "join_chars s = s"
  by (induction s) (simp_all add: join_chars_def)

lemma nibble_less: "nibble u i < 16"
proof -
  have "drop_bit (4 * i) u AND 15 \<le> (15 :: uuid)"
    by (rule word_and_le1)
  then have "unat (drop_bit (4 * i) u AND 15) \<le> unat (15 :: uuid)"
    by (simp add: word_le_nat_alt)
  then show ?thesis
    by (simp add: nibble_def)
qed

lemma upper_hex_digit_all:
  "\<forall>n \<in> set [0..<16]. is_upper_hex (upper_char (hex_digit n))"
  by code_simp

lemma upper_hex_digit: "n < 16 \<Longrightarrow> is_upper_hex (upper_char (hex_digit n))"
  using upper_hex_digit_all by simp

lemma generate_uuid_eq:
  "generate_uuid u = map (\<lambda>i. upper_char (hex_digit (nibble u i))) (take 24 (rev [0..<32]))"
  by (simp add: generate_uuid_def join_chars_id upper_def uuid_hex_def take_map del: upt_Suc)

text \<open>
  C6: every call of \<open>generate_uuid\<close>, whatever value the entropy source delivers,
  returns exactly 24 characters, each of them an uppercase hexadecimal digit
  \<open>0-9, A-F\<close>.
\<close>

theorem generate_uuid_format:
  "length (generate_uuid u) = 24 \<and> list_all is_upper_hex (generate_uuid u)"
  by (simp add: generate_uuid_eq list_all_iff upper_hex_digit nibble_less del: upt_Suc)

section \<open>Text and search primitives\<close>

lemma startswith_iff: "startswith s p \<longleftrightarrow> take (length p) s = p"
  by (induction s p rule: startswith.induct) auto

lemma startswith_append: "startswith (p @ t) p"
  by (simp add: startswith_iff)

lemma startswith_decomp: "startswith s p \<Longrightarrow> s = p @ drop (length p) s"
  by (metis append_take_drop_id startswith_iff)

lemma startswith_length: "startswith s p \<Longrightarrow> length p \<le> length s"
  by (induction s p rule: startswith.induct) auto

lemma scan_Some_iff:
  "scan k s = Some (i, r) \<longleftrightarrow>
     i \<le> length s \<and> k (drop i s) = Some r \<and> (\<forall>j<i. k (drop j s) = None)"
proof (induction s arbitrary: i)
  case Nil
  then show ?case by auto
next
  case (Cons c cs)
  show ?case
  proof (cases "k (c # cs)")
    case (Some r')
    then show ?thesis by (cases i) auto
  next
    case None
    show ?thesis
    proof (cases i)
      case 0
      with None show ?thesis by auto
    next
      case (Suc i')
      have "(\<forall>j<Suc i'. k (drop j (c # cs)) = None) \<longleftrightarrow> (\<forall>j<i'. k (drop j cs) = None)"
        using None by (auto simp: less_Suc_eq_0_disj)
      with None Suc Cons.IH [of i'] show ?thesis by auto
    qed
  qed
qed

lemma all_le_Suc_shift: "(\<forall>j\<le>Suc n. P j) \<longleftrightarrow> P 0 \<and> (\<forall>j\<le>n. P (Suc j))"
proof
  assume a: "\<forall>j\<le>Suc n. P j"
  then show "P 0 \<and> (\<forall>j\<le>n. P (Suc j))" by simp
next
  assume a: "P 0 \<and> (\<forall>j\<le>n. P (Suc j))"
  show "\<forall>j\<le>Suc n. P j"
  proof (intro allI impI)
    fix j assume "j \<le> Suc n"
    then show "P j" using a by (cases j) simp_all
  qed
qed

lemma scan_None_iff: "scan k s = None \<longleftrightarrow> (\<forall>j\<le>length s. k (drop j s) = None)"
proof (induction s)
  case Nil
  then show ?case by simp
next
  case (Cons c cs)
  have "(\<forall>j\<le>length (c # cs). k (drop j (c # cs)) = None)
        \<longleftrightarrow> k (c # cs) = None \<and> (\<forall>j\<le>length cs. k (drop j cs) = None)"
    by (simp add: all_le_Suc_shift)
  with Cons show ?case by (simp split: option.splits)
qed

lemma backtrack_Some_iff:
  "backtrack k s n = Some (m, r) \<longleftrightarrow>
     1 \<le> m \<and> m \<le> n \<and> k (drop m s) = Some r \<and> (\<forall>j. m < j \<and> j \<le> n \<longrightarrow> k (drop j s) = None)"
proof (induction n)
  case 0
  then show ?case by simp
next
  case (Suc n)
  show ?case
  proof (cases "k (drop (Suc n) s)")
    case None
    have a: "(\<forall>j. m < j \<and> j \<le> Suc n \<longrightarrow> k (drop j s) = None)
          \<longleftrightarrow> (\<forall>j. m < j \<and> j \<le> n \<longrightarrow> k (drop j s) = None)"
      using None by (metis le_Suc_eq)
    have b: "m \<le> n" if "k (drop m s) = Some r" "m \<le> Suc n"
      using that None by (cases "m = Suc n") simp_all
    have "backtrack k s (Suc n) = backtrack k s n"
      using None by simp
    then show ?thesis
      using Suc a b by (metis le_Suc_eq)
  next
    case (Some r')
    have "backtrack k s (Suc n) = Some (Suc n, r')"
      using Some by simp
    moreover have "m = Suc n \<and> r = r'"
      if "m \<le> Suc n" "k (drop m s) = Some r" "\<forall>j. m < j \<and> j \<le> Suc n \<longrightarrow> k (drop j s) = None"
    proof -
      have "\<not> m < Suc n" using that(3) Some by fastforce
      then have "m = Suc n" using that(1) by simp
      then show ?thesis using that(2) Some by simp
    qed
    ultimately show ?thesis using Some by auto
  qed
qed

lemma backtrack_None_iff:
  "backtrack k s n = None \<longleftrightarrow> (\<forall>j. 1 \<le> j \<and> j \<le> n \<longrightarrow> k (drop j s) = None)"
proof (induction n)
  case 0
  then show ?case by auto
next
  case (Suc n)
  then show ?case by (auto simp: le_Suc_eq split: option.splits)
qed

lemma splice_nat: "splice content (int p) new = insert_at content p (concat new)"
  by (simp add: splice_def slice_to_def slice_from_def insert_at_def)

lemma lit_Some_iff: "lit l s = Some n \<longleftrightarrow> startswith s l \<and> n = length l"
  by (auto simp: lit_def)

lemma match_section_Some:
  assumes "match_section name s = Some n"
  shows "\<exists>mid post. s = begin_marker name @ mid @ end_marker name @ post
           \<and> n = length (begin_marker name) + length mid + length (end_marker name)
           \<and> (\<forall>j<length mid. \<not> startswith (drop j (mid @ end_marker name @ post)) (end_marker name))"
proof -
  let ?b = "begin_marker name" and ?e = "end_marker name"
  from assms have sw: "startswith s ?b"
    by (auto simp: match_section_def split: if_splits)
  with assms obtain k m where sc: "scan (lit ?e) (drop (length ?b) s) = Some (k, m)"
    and n: "n = length ?b + k + m"
    by (auto simp: match_section_def split: option.splits)
  let ?r = "drop (length ?b) s"
  from sc have k: "k \<le> length ?r" and l: "lit ?e (drop k ?r) = Some m"
    and least: "\<forall>j<k. lit ?e (drop j ?r) = None"
    by (simp_all add: scan_Some_iff)
  from l have sw2: "startswith (drop k ?r) ?e" and m: "m = length ?e"
    by (simp_all add: lit_Some_iff)
  have r: "?r = take k ?r @ ?e @ drop (length ?e) (drop k ?r)"
    using startswith_decomp [OF sw2] by (metis append_take_drop_id)
  have s: "s = ?b @ ?r"
    using startswith_decomp [OF sw] .
  let ?mid = "take k ?r" and ?post = "drop (length ?e) (drop k ?r)"
  have lm: "length ?mid = k" using k by simp
  have "s = ?b @ ?mid @ ?e @ ?post" using s r by metis
  moreover have "n = length ?b + length ?mid + length ?e" using n m lm by simp
  moreover have "\<forall>j<length ?mid. \<not> startswith (drop j (?mid @ ?e @ ?post)) ?e"
  proof (intro allI impI)
    fix j assume "j < length ?mid"
    then have "j < k" using lm by simp
    then have "lit ?e (drop j ?r) = None" using least by simp
    then have "\<not> startswith (drop j ?r) ?e" by (simp add: lit_def split: if_splits)
    then show "\<not> startswith (drop j (?mid @ ?e @ ?post)) ?e" using r by metis
  qed
  ultimately show ?thesis by blast
qed

lemma search_section_Some:
  assumes "search_section name c = Some (s, e)"
  shows "\<exists>pre mid post. c = pre @ begin_marker name @ mid @ end_marker name @ post
           \<and> s = length pre
           \<and> e = length pre + length (begin_marker name) + length mid + length (end_marker name)"
proof -
  from assms obtain n where sc: "scan (match_section name) c = Some (s, n)" and e: "e = s + n"
    by (auto simp: search_section_def split: option.splits)
  then have s: "s \<le> length c" and m: "match_section name (drop s c) = Some n"
    by (simp_all add: scan_Some_iff)
  from match_section_Some [OF m] obtain mid post where
    d: "drop s c = begin_marker name @ mid @ end_marker name @ post"
    and n: "n = length (begin_marker name) + length mid + length (end_marker name)"
    by blast
  have "c = take s c @ begin_marker name @ mid @ end_marker name @ post"
    using d by (metis append_take_drop_id)
  moreover have "length (take s c) = s" using s by simp
  ultimately show ?thesis using e n by (metis add.assoc)
qed

section \<open>Identifiers and rendered records\<close>

lemma generate_ids_eq:
  "generate_ids rnd k fs fr br =
     (\<lambda>f. if f \<in> set fs then Some (generate_uuid (rnd (k + 2 * last_index fs f))) else fr f,
      \<lambda>f. if f \<in> set fs then Some (generate_uuid (rnd (k + 2 * last_index fs f + 1))) else br f)"
proof (induction fs arbitrary: k fr br)
  case Nil
  then show ?case by simp
next
  case (Cons x xs)
  show ?case
    by (simp add: Cons.IH fun_eq_iff)
qed

lemma generate_ids_start:
  "generate_ids rnd 0 fs Map.empty Map.empty = (fr, br) \<Longrightarrow>
     (\<forall>f\<in>set fs. fr f = Some (file_ref_of rnd fs f) \<and> br f = Some (build_ref_of rnd fs f))"
  by (auto simp: generate_ids_eq file_ref_of_def build_ref_of_def)

lemma render_all_Inr:
  assumes "\<forall>f\<in>set fs. render f = Inr (g f)"
  shows "render_all render fs = Inr (map g fs)"
  using assms by (induction fs) simp_all

lemma render_new_ref:
  assumes "\<forall>f\<in>set fs. fr f = Some (file_ref_of rnd fs f)"
  shows "render_all (new_ref fr) fs = Inr (new_file_refs rnd fs)"
  unfolding new_file_refs_def
  by (rule render_all_Inr) (simp add: new_ref_def lookup_def assms)

lemma render_new_child:
  assumes "\<forall>f\<in>set fs. fr f = Some (file_ref_of rnd fs f)"
  shows "render_all (new_child fr) fs = Inr (new_children rnd fs)"
  unfolding new_children_def
  by (rule render_all_Inr) (simp add: new_child_def lookup_def assms)

lemma render_new_build:
  assumes "\<forall>f\<in>set fs. br f = Some (build_ref_of rnd fs f)"
  shows "render_all (new_build br) fs = Inr (new_build_files rnd fs)"
  unfolding new_build_files_def
  by (rule render_all_Inr) (simp add: new_build_def lookup_def assms)

lemma render_new_pbx_build:
  assumes "\<forall>f\<in>set fs. fr f = Some (file_ref_of rnd fs f)"
    and "\<forall>f\<in>set fs. br f = Some (build_ref_of rnd fs f)"
  shows "render_all (new_pbx_build fr br) fs = Inr (new_pbx_build_files rnd fs)"
  unfolding new_pbx_build_files_def
  by (rule render_all_Inr) (simp add: new_pbx_build_def lookup_def assms)

section \<open>The four steps in closed form\<close>

lemma marker_lengths:
  "length (begin_marker name) = length name + 20"
  "length (end_marker name) = length name + 18"
  by (simp_all add: begin_marker_def end_marker_def)

lemma section_end_bound:
  assumes "search_section name c = Some (s, e)"
  shows "length (end_marker name) + 1 \<le> e" and "e \<le> length c"
proof -
  from search_section_Some [OF assms] obtain pre mid post where
    c: "c = pre @ begin_marker name @ mid @ end_marker name @ post"
    and e: "e = length pre + length (begin_marker name) + length mid + length (end_marker name)"
    by blast
  show "length (end_marker name) + 1 \<le> e"
    unfolding e by (simp add: marker_lengths)
  show "e \<le> length c"
    unfolding e by (subst c) simp
qed

lemma insert_file_refs_eq:
  assumes "\<forall>f\<in>set fs. fr f = Some (file_ref_of rnd fs f)"
  shows "insert_file_refs fr fs c =
    (case search_section ''PBXFileReference'' c of
       None \<Rightarrow> Inl (Could_not_find PBXFileReference_section)
     | Some (s, e) \<Rightarrow> Inr (insert_at c (e - 35) (concat (new_file_refs rnd fs))))"
proof (cases "search_section ''PBXFileReference'' c")
  case None
  then show ?thesis by (simp add: insert_file_refs_def)
next
  case (Some a)
  obtain s e where a: "a = (s, e)" by (cases a)
  have "35 \<le> e"
    using section_end_bound(1) [of "''PBXFileReference''" c s e] Some a
    by (simp add: marker_lengths)
  then have pos: "int e - int (length (''/* End PBXFileReference section */'' @ [NL])) = int (e - 35)"
    by simp
  have r: "render_all (new_ref fr) fs = Inr (new_file_refs rnd fs)"
    by (rule render_new_ref [OF assms])
  have "insert_file_refs fr fs c =
     Inr (splice c (int e - int (length (''/* End PBXFileReference section */'' @ [NL]))) (new_file_refs rnd fs))"
    unfolding insert_file_refs_def Some a r by (simp only: option.case prod.case sum.case Let_def)
  also have "\<dots> = Inr (insert_at c (e - 35) (concat (new_file_refs rnd fs)))"
    unfolding pos splice_nat ..
  finally show ?thesis
    unfolding Some a by (simp only: option.case prod.case)
qed

lemma insert_pbx_build_files_eq:
  assumes "\<forall>f\<in>set fs. fr f = Some (file_ref_of rnd fs f)"
    and "\<forall>f\<in>set fs. br f = Some (build_ref_of rnd fs f)"
  shows "insert_pbx_build_files fr br fs c =
    (case search_section ''PBXBuildFile'' c of
       None \<Rightarrow> Inl (Could_not_find PBXBuildFile_section)
     | Some (s, e) \<Rightarrow> Inr (insert_at c (e - 31) (concat (new_pbx_build_files rnd fs))))"
proof (cases "search_section ''PBXBuildFile'' c")
  case None
  then show ?thesis by (simp add: insert_pbx_build_files_def)
next
  case (Some a)
  obtain s e where a: "a = (s, e)" by (cases a)
  have "31 \<le> e"
    using section_end_bound(1) [of "''PBXBuildFile''" c s e] Some a
    by (simp add: marker_lengths)
  then have pos: "int e - int (length (''/* End PBXBuildFile section */'' @ [NL])) = int (e - 31)"
    by simp
  have r: "render_all (new_pbx_build fr br) fs = Inr (new_pbx_build_files rnd fs)"
    by (rule render_new_pbx_build [OF assms])
  have "insert_pbx_build_files fr br fs c =
     Inr (splice c (int e - int (length (''/* End PBXBuildFile section */'' @ [NL]))) (new_pbx_build_files rnd fs))"
    unfolding insert_pbx_build_files_def Some a r by (simp only: option.case prod.case sum.case Let_def)
  also have "\<dots> = Inr (insert_at c (e - 31) (concat (new_pbx_build_files rnd fs)))"
    unfolding pos splice_nat ..
  finally show ?thesis
    unfolding Some a by (simp only: option.case prod.case)
qed

lemma insert_children_eq:
  assumes "\<forall>f\<in>set fs. fr f = Some (file_ref_of rnd fs f)"
  shows "insert_children fr fs c =
    (case search_list_record ''Models'' ''children'' c of
       None \<Rightarrow> Inl (Could_not_find Models_group)
     | Some (s, p, e) \<Rightarrow> Inr (insert_at c p (concat (new_children rnd fs))))"
  unfolding insert_children_def render_new_child [OF assms]
  by (simp add: splice_nat split: option.splits)

lemma insert_build_files_eq:
  assumes "\<forall>f\<in>set fs. br f = Some (build_ref_of rnd fs f)"
  shows "insert_build_files br fs c =
    (case search_list_record ''Sources'' ''files'' c of
       None \<Rightarrow> Inl (Could_not_find Sources_build_phase)
     | Some (s, p, e) \<Rightarrow> Inr (insert_at c p (concat (new_build_files rnd fs))))"
  unfolding insert_build_files_def render_new_build [OF assms]
  by (simp add: splice_nat split: option.splits)

lemma take_takeWhile_all:
  assumes "n \<le> length (takeWhile P xs)"
  shows "\<forall>x\<in>set (take n xs). P x"
proof -
  have "take n xs = take n (takeWhile P xs)"
    using assms by (metis append_eq_conv_conj append_take_drop_id takeWhile_dropWhile_id take_append
        diff_is_0_eq take_0 append_Nil2)
  then show ?thesis
    by (metis in_set_takeD set_takeWhileD)
qed

lemma counted_Some_iff:
  "counted cls n s = Some r \<longleftrightarrow> n \<le> length s \<and> list_all cls (take n s) \<and> r = drop n s"
  by (induction cls n s rule: counted.induct) auto

lemma match_list_field_Some:
  assumes "match_list_field field r = Some (g2, e)"
  shows "\<exists>lst post. r = (field @ '' = ('') @ lst @ '');'' @ post \<and> lst \<noteq> [] \<and> CHR '')'' \<notin> set lst
           \<and> g2 = length (field @ '' = ('') + length lst \<and> e = g2 + 2"
proof -
  let ?key = "field @ '' = (''"
  from assms have sw: "startswith r ?key"
    by (auto simp: match_list_field_def Let_def split: if_splits)
  let ?r2 = "drop (length ?key) r"
  from assms sw obtain m n where
    gp: "greedy_plus (\<lambda>c. c \<noteq> CHR '')'') (lit '');'') ?r2 = Some (m, n)"
    and g2: "g2 = length ?key + m" and e: "e = length ?key + m + n"
    by (auto simp: match_list_field_def Let_def split: if_splits option.splits)
  from gp have m1: "1 \<le> m" and m2: "m \<le> length (takeWhile (\<lambda>c. c \<noteq> CHR '')'') ?r2)"
    and l: "lit '');'' (drop m ?r2) = Some n"
    unfolding greedy_plus_def backtrack_Some_iff by simp_all
  from l have sw2: "startswith (drop m ?r2) '');''" and n: "n = 2"
    by (simp_all add: lit_Some_iff)
  let ?lst = "take m ?r2" and ?post = "drop 2 (drop m ?r2)"
  have "m \<le> length ?r2"
    using m2 length_takeWhile_le [of "\<lambda>c. c \<noteq> CHR '')''" ?r2] by simp
  then have lm: "length ?lst = m" by simp
  have "drop m ?r2 = '');'' @ ?post"
    using startswith_decomp [OF sw2] by simp
  then have "?r2 = ?lst @ '');'' @ ?post"
    by (metis append_take_drop_id)
  then have "r = ?key @ ?lst @ '');'' @ ?post"
    using startswith_decomp [OF sw] by metis
  moreover have "?lst \<noteq> []" using lm m1 by auto
  moreover have "CHR '')'' \<notin> set ?lst"
    using take_takeWhile_all [OF m2] by blast
  moreover have "g2 = length ?key + length ?lst" using g2 lm by simp
  moreover have "e = g2 + 2" using g2 e n by simp
  ultimately show ?thesis by blast
qed

lemma match_list_record_Some:
  assumes "match_list_record label field s = Some (g2, e)"
  shows "\<exists>ident body lst post.
           s = ident @ ('' /* '' @ label @ '' */ = {'') @ body @ (field @ '' = ('') @ lst @ '');'' @ post
           \<and> length ident = 24 \<and> list_all is_upper_hex ident
           \<and> body \<noteq> [] \<and> CHR ''}'' \<notin> set body \<and> lst \<noteq> [] \<and> CHR '')'' \<notin> set lst
           \<and> g2 = 24 + length ('' /* '' @ label @ '' */ = {'') + length body
                     + length (field @ '' = ('') + length lst
           \<and> e = g2 + 2"
proof -
  let ?head = "'' /* '' @ label @ '' */ = {''"
  from assms obtain r0 where c0: "counted is_upper_hex 24 s = Some r0"
    by (auto simp: match_list_record_def Let_def split: option.splits)
  then have len: "24 \<le> length s" and hex: "list_all is_upper_hex (take 24 s)" and r0: "r0 = drop 24 s"
    by (simp_all add: counted_Some_iff)
  from assms c0 r0 have sw: "startswith (drop 24 s) ?head"
    by (auto simp: match_list_record_def Let_def split: if_splits)
  let ?r = "drop (24 + length ?head) s"
  have r_eq: "drop (length ?head) r0 = ?r"
    unfolding r0 by (simp add: add.commute)
  from assms c0 sw r0 obtain n g e' where
    gp0: "greedy_plus (\<lambda>c. c \<noteq> CHR ''}'') (match_list_field field) (drop (length ?head) r0) = Some (n, g, e')"
    and g2: "g2 = 24 + length ?head + n + g" and e: "e = 24 + length ?head + n + e'"
    by (auto simp: match_list_record_def Let_def split: if_splits option.splits)
  from gp0 have gp: "greedy_plus (\<lambda>c. c \<noteq> CHR ''}'') (match_list_field field) ?r = Some (n, g, e')"
    unfolding r_eq .
  from gp have n1: "1 \<le> n" and n2: "n \<le> length (takeWhile (\<lambda>c. c \<noteq> CHR ''}'') ?r)"
    and mf: "match_list_field field (drop n ?r) = Some (g, e')"
    unfolding greedy_plus_def backtrack_Some_iff by simp_all
  from match_list_field_Some [OF mf] obtain lst post where
    d: "drop n ?r = (field @ '' = ('') @ lst @ '');'' @ post" and lst: "lst \<noteq> []" "CHR '')'' \<notin> set lst"
    and g: "g = length (field @ '' = ('') + length lst" and e': "e' = g + 2"
    by blast
  let ?ident = "take 24 s" and ?body = "take n ?r"
  have "n \<le> length ?r"
    using n2 length_takeWhile_le [of "\<lambda>c. c \<noteq> CHR ''}''" ?r] by simp
  then have lb: "length ?body = n" by simp
  have r: "?r = ?body @ (field @ '' = ('') @ lst @ '');'' @ post"
    using d by (metis append_take_drop_id)
  have "drop 24 s = ?head @ drop (length ?head) (drop 24 s)"
    using startswith_decomp [OF sw] .
  then have "drop 24 s = ?head @ ?r"
    by (simp add: add.commute)
  then have "s = ?ident @ ?head @ ?r"
    by (metis append_take_drop_id)
  then have "s = ?ident @ ?head @ ?body @ (field @ '' = ('') @ lst @ '');'' @ post"
    using r by metis
  moreover have "length ?ident = 24" using len by simp
  moreover have "?body \<noteq> []" using lb n1 by auto
  moreover have "CHR ''}'' \<notin> set ?body"
    using take_takeWhile_all [OF n2] by blast
  moreover have "g2 = 24 + length ?head + length ?body + length (field @ '' = ('') + length lst"
    using g2 g lb by simp
  moreover have "e = g2 + 2" using e e' g2 by simp
  ultimately show ?thesis using hex lst by blast
qed

lemma search_list_record_Some:
  assumes "search_list_record label field c = Some (st, p, e)"
  shows "st \<le> length c \<and> match_list_record label field (drop st c) = Some (p - st, e - st)
         \<and> (\<forall>j. j < st \<longrightarrow> match_list_record label field (drop j c) = None)
         \<and> st \<le> p \<and> e = p + 2 \<and> e \<le> length c
         \<and> startswith (drop p c) '');''"
proof -
  from assms obtain g2 e' where sc: "scan (match_list_record label field) c = Some (st, g2, e')"
    and p: "p = st + g2" and e: "e = st + e'"
    by (auto simp: search_list_record_def split: option.splits)
  from sc have st: "st \<le> length c" and m: "match_list_record label field (drop st c) = Some (g2, e')"
    and least: "\<forall>j. j < st \<longrightarrow> match_list_record label field (drop j c) = None"
    unfolding scan_Some_iff by simp_all
  from match_list_record_Some [OF m] obtain ident body lst post where
    d: "drop st c = ident @ ('' /* '' @ label @ '' */ = {'') @ body @ (field @ '' = ('') @ lst @ '');'' @ post"
    and g2: "g2 = 24 + length ('' /* '' @ label @ '' */ = {'') + length body
                     + length (field @ '' = ('') + length lst" "length ident = 24"
    and e': "e' = g2 + 2"
    by blast
  let ?A = "ident @ ('' /* '' @ label @ '' */ = {'') @ body @ (field @ '' = ('') @ lst"
  have lA: "length ?A = g2" using g2 by simp
  have dA: "drop st c = ?A @ '');'' @ post" using d by simp
  have "length (drop st c) = g2 + 2 + length post"
    unfolding dA using lA by simp
  then have le: "st + e' \<le> length c" using e' st by simp
  have "drop g2 (drop st c) = '');'' @ post"
    unfolding dA using lA by (metis append_eq_conv_conj)
  then have "startswith (drop p c) '');''"
    unfolding p by (simp add: add.commute)
  then show ?thesis using st m least p e e' le by simp
qed

lemma and_then_Inr_iff: "and_then r f = Inr y \<longleftrightarrow> (\<exists>x. r = Inr x \<and> f x = Inr y)"
  by (cases r) (simp_all add: and_then_def)

lemma and_then_Inl_iff: "and_then r f = Inl e \<longleftrightarrow> r = Inl e \<or> (\<exists>x. r = Inr x \<and> f x = Inl e)"
  by (cases r) (simp_all add: and_then_def)

lemma ids_exist:
  obtains fr br where "generate_ids rnd 0 fs Map.empty Map.empty = (fr, br)"
    and "\<forall>f\<in>set fs. fr f = Some (file_ref_of rnd fs f)"
    and "\<forall>f\<in>set fs. br f = Some (build_ref_of rnd fs f)"
proof -
  obtain fr br where g: "generate_ids rnd 0 fs Map.empty Map.empty = (fr, br)"
    by (cases "generate_ids rnd 0 fs Map.empty Map.empty")
  from generate_ids_start [OF g] that [OF g] show ?thesis by blast
qed

lemma patch_steps:
  assumes "generate_ids rnd 0 fs Map.empty Map.empty = (fr, br)"
  shows "patch rnd c fs =
     and_then (insert_file_refs fr fs c) (\<lambda>c1.
     and_then (insert_children fr fs c1) (\<lambda>c2.
     and_then (insert_build_files br fs c2) (\<lambda>c3.
     insert_pbx_build_files fr br fs c3)))"
  by (simp add: patch_def assms)

lemma patch_Inr_iff:
  assumes "generate_ids rnd 0 fs Map.empty Map.empty = (fr, br)"
  shows "patch rnd c fs = Inr out \<longleftrightarrow>
     (\<exists>c1 c2 c3. insert_file_refs fr fs c = Inr c1 \<and> insert_children fr fs c1 = Inr c2
        \<and> insert_build_files br fs c2 = Inr c3 \<and> insert_pbx_build_files fr br fs c3 = Inr out)"
  unfolding patch_steps [OF assms] and_then_Inr_iff by blast

lemma insert_file_refs_Inr:
  assumes "\<forall>f\<in>set fs. fr f = Some (file_ref_of rnd fs f)"
    and "insert_file_refs fr fs c = Inr c1"
  shows "\<exists>st e. search_section ''PBXFileReference'' c = Some (st, e) \<and> 35 \<le> e \<and> e \<le> length c
           \<and> c1 = insert_at c (e - 35) (concat (new_file_refs rnd fs))"
proof -
  from assms(2) obtain st e where s: "search_section ''PBXFileReference'' c = Some (st, e)"
    and c1: "c1 = insert_at c (e - 35) (concat (new_file_refs rnd fs))"
    unfolding insert_file_refs_eq [OF assms(1)] by (auto split: option.splits)
  have "35 \<le> e" "e \<le> length c"
    using section_end_bound [OF s] by (simp_all add: marker_lengths)
  with s c1 show ?thesis by blast
qed

lemma insert_pbx_build_files_Inr:
  assumes "\<forall>f\<in>set fs. fr f = Some (file_ref_of rnd fs f)"
    and "\<forall>f\<in>set fs. br f = Some (build_ref_of rnd fs f)"
    and "insert_pbx_build_files fr br fs c = Inr c1"
  shows "\<exists>st e. search_section ''PBXBuildFile'' c = Some (st, e) \<and> 31 \<le> e \<and> e \<le> length c
           \<and> c1 = insert_at c (e - 31) (concat (new_pbx_build_files rnd fs))"
proof -
  from assms(3) obtain st e where s: "search_section ''PBXBuildFile'' c = Some (st, e)"
    and c1: "c1 = insert_at c (e - 31) (concat (new_pbx_build_files rnd fs))"
    unfolding insert_pbx_build_files_eq [OF assms(1,2)] by (auto split: option.splits)
  have "31 \<le> e" "e \<le> length c"
    using section_end_bound [OF s] by (simp_all add: marker_lengths)
  with s c1 show ?thesis by blast
qed

lemma insert_children_Inr:
  assumes "\<forall>f\<in>set fs. fr f = Some (file_ref_of rnd fs f)"
    and "insert_children fr fs c = Inr c1"
  shows "\<exists>st p e. search_list_record ''Models'' ''children'' c = Some (st, p, e) \<and> p \<le> length c
           \<and> c1 = insert_at c p (concat (new_children rnd fs))"
proof -
  from assms(2) obtain st p e where s: "search_list_record ''Models'' ''children'' c = Some (st, p, e)"
    and c1: "c1 = insert_at c p (concat (new_children rnd fs))"
    unfolding insert_children_eq [OF assms(1)] by (auto split: option.splits)
  have "p \<le> length c"
    using search_list_record_Some [OF s] by simp
  with s c1 show ?thesis by blast
qed

lemma insert_build_files_Inr:
  assumes "\<forall>f\<in>set fs. br f = Some (build_ref_of rnd fs f)"
    and "insert_build_files br fs c = Inr c1"
  shows "\<exists>st p e. search_list_record ''Sources'' ''files'' c = Some (st, p, e) \<and> p \<le> length c
           \<and> c1 = insert_at c p (concat (new_build_files rnd fs))"
proof -
  from assms(2) obtain st p e where s: "search_list_record ''Sources'' ''files'' c = Some (st, p, e)"
    and c1: "c1 = insert_at c p (concat (new_build_files rnd fs))"
    unfolding insert_build_files_eq [OF assms(1)] by (auto split: option.splits)
  have "p \<le> length c"
    using search_list_record_Some [OF s] by simp
  with s c1 show ?thesis by blast
qed

lemma patch_Inr_splices:
  assumes "patch rnd content fs = Inr out"
  shows "\<exists>p1 p2 p3 p4 c1 c2 c3.
     p1 \<le> length content \<and> c1 = insert_at content p1 (concat (new_file_refs rnd fs)) \<and>
     p2 \<le> length c1 \<and> c2 = insert_at c1 p2 (concat (new_children rnd fs)) \<and>
     p3 \<le> length c2 \<and> c3 = insert_at c2 p3 (concat (new_build_files rnd fs)) \<and>
     p4 \<le> length c3 \<and> out = insert_at c3 p4 (concat (new_pbx_build_files rnd fs))"
proof -
  obtain fr br where g: "generate_ids rnd 0 fs Map.empty Map.empty = (fr, br)"
    and fr: "\<forall>f\<in>set fs. fr f = Some (file_ref_of rnd fs f)"
    and br: "\<forall>f\<in>set fs. br f = Some (build_ref_of rnd fs f)"
    by (rule ids_exist)
  from assms obtain c1 c2 c3 where
    1: "insert_file_refs fr fs content = Inr c1" and 2: "insert_children fr fs c1 = Inr c2"
    and 3: "insert_build_files br fs c2 = Inr c3" and 4: "insert_pbx_build_files fr br fs c3 = Inr out"
    unfolding patch_Inr_iff [OF g] by blast
  from insert_file_refs_Inr [OF fr 1] obtain e1 where
    "e1 \<le> length content" and a2: "c1 = insert_at content (e1 - 35) (concat (new_file_refs rnd fs))"
    by blast
  then have a1: "e1 - 35 \<le> length content" by simp
  note a = a1 a2
  from insert_children_Inr [OF fr 2] obtain p2 where
    b: "p2 \<le> length c1" "c2 = insert_at c1 p2 (concat (new_children rnd fs))"
    by blast
  from insert_build_files_Inr [OF br 3] obtain p3 where
    c: "p3 \<le> length c2" "c3 = insert_at c2 p3 (concat (new_build_files rnd fs))"
    by blast
  from insert_pbx_build_files_Inr [OF fr br 4] obtain e4 where
    "e4 \<le> length c3" and d2: "out = insert_at c3 (e4 - 31) (concat (new_pbx_build_files rnd fs))"
    by blast
  then have d1: "e4 - 31 \<le> length c3" by simp
  note d = d1 d2
  from a b c d show ?thesis by blast
qed

lemma insert_file_refs_Inl:
  assumes "\<forall>f\<in>set fs. fr f = Some (file_ref_of rnd fs f)"
  shows "insert_file_refs fr fs c = Inl e \<longleftrightarrow>
     search_section ''PBXFileReference'' c = None \<and> e = Could_not_find PBXFileReference_section"
  unfolding insert_file_refs_eq [OF assms] by (auto split: option.splits)

lemma insert_children_Inl:
  assumes "\<forall>f\<in>set fs. fr f = Some (file_ref_of rnd fs f)"
  shows "insert_children fr fs c = Inl e \<longleftrightarrow>
     search_list_record ''Models'' ''children'' c = None \<and> e = Could_not_find Models_group"
  unfolding insert_children_eq [OF assms] by (auto split: option.splits)

lemma insert_build_files_Inl:
  assumes "\<forall>f\<in>set fs. br f = Some (build_ref_of rnd fs f)"
  shows "insert_build_files br fs c = Inl e \<longleftrightarrow>
     search_list_record ''Sources'' ''files'' c = None \<and> e = Could_not_find Sources_build_phase"
  unfolding insert_build_files_eq [OF assms] by (auto split: option.splits)

lemma insert_pbx_build_files_Inl:
  assumes "\<forall>f\<in>set fs. fr f = Some (file_ref_of rnd fs f)"
    and "\<forall>f\<in>set fs. br f = Some (build_ref_of rnd fs f)"
  shows "insert_pbx_build_files fr br fs c = Inl e \<longleftrightarrow>
     search_section ''PBXBuildFile'' c = None \<and> e = Could_not_find PBXBuildFile_section"
  unfolding insert_pbx_build_files_eq [OF assms] by (auto split: option.splits)

lemma patch_Inl:
  assumes "patch rnd content fs = Inl e"
  shows "\<exists>r. e = Could_not_find r"
proof -
  obtain fr br where g: "generate_ids rnd 0 fs Map.empty Map.empty = (fr, br)"
    and fr: "\<forall>f\<in>set fs. fr f = Some (file_ref_of rnd fs f)"
    and br: "\<forall>f\<in>set fs. br f = Some (build_ref_of rnd fs f)"
    by (rule ids_exist)
  from assms show ?thesis
    unfolding patch_steps [OF g] and_then_Inl_iff
      insert_file_refs_Inl [OF fr] insert_children_Inl [OF fr] insert_build_files_Inl [OF br]
      insert_pbx_build_files_Inl [OF fr br]
    by blast
qed

section \<open>Runs of the patcher\<close>

lemma last_index_props:
  assumes "x \<in> set xs"
  shows "last_index xs x < length xs \<and> xs ! last_index xs x = x
         \<and> (\<forall>k. k < length xs \<and> xs ! k = x \<longrightarrow> k \<le> last_index xs x)"
  using assms
proof (induction xs)
  case Nil
  then show ?case by simp
next
  case (Cons y ys)
  show ?case
  proof (cases "x \<in> set ys")
    case True
    with Cons.IH have ih: "last_index ys x < length ys" "ys ! last_index ys x = x"
      "\<forall>k. k < length ys \<and> ys ! k = x \<longrightarrow> k \<le> last_index ys x"
      by simp_all
    have "k \<le> Suc (last_index ys x)" if "k < length (y # ys)" "(y # ys) ! k = x" for k
      using that ih(3) by (cases k) simp_all
    with True ih show ?thesis by simp
  next
    case False
    with Cons.prems have xy: "x = y" by simp
    have "k = 0" if "k < length (y # ys)" "(y # ys) ! k = x" for k
      using that False by (cases k) auto
    with False xy show ?thesis by auto
  qed
qed

text \<open>
  C9: when a filename occurs at two indices \<open>i\<close> and \<open>j\<close> of \<open>files_to_add\<close>, the
  dictionaries hold one identifier pair for it, the pair generated at its last
  occurrence \<open>l\<close> (calls \<open>2 * l\<close> and \<open>2 * l + 1\<close> of the generator), and the records
  rendered at \<open>i\<close> and at \<open>j\<close> are equal in each of the four lists.
\<close>

theorem duplicate_filenames_share_ids:
  assumes "generate_ids rnd 0 fs Map.empty Map.empty = (fr, br)"
    and "i < length fs" and "j < length fs" and "fs ! i = fs ! j"
  shows "\<exists>l. l < length fs \<and> fs ! l = fs ! i
           \<and> (\<forall>k. k < length fs \<and> fs ! k = fs ! i \<longrightarrow> k \<le> l)
           \<and> fr (fs ! i) = Some (generate_uuid (rnd (2 * l)))
           \<and> br (fs ! i) = Some (generate_uuid (rnd (2 * l + 1)))
           \<and> (\<exists>rs. render_all (new_ref fr) fs = Inr rs
                 \<and> rs ! i = file_ref_record (generate_uuid (rnd (2 * l))) (fs ! i) \<and> rs ! j = rs ! i)
           \<and> (\<exists>cs. render_all (new_child fr) fs = Inr cs
                 \<and> cs ! i = child_record (generate_uuid (rnd (2 * l))) (fs ! i) \<and> cs ! j = cs ! i)
           \<and> (\<exists>bs. render_all (new_build br) fs = Inr bs
                 \<and> bs ! i = build_file_record (generate_uuid (rnd (2 * l + 1))) (fs ! i)
                 \<and> bs ! j = bs ! i)
           \<and> (\<exists>ps. render_all (new_pbx_build fr br) fs = Inr ps
                 \<and> ps ! i = pbx_build_file_record (generate_uuid (rnd (2 * l + 1)))
                               (generate_uuid (rnd (2 * l))) (fs ! i)
                 \<and> ps ! j = ps ! i)"
proof -
  let ?l = "last_index fs (fs ! i)"
  have mem: "fs ! i \<in> set fs" using assms(2) by simp
  from generate_ids_start [OF assms(1)]
  have fr: "\<forall>f\<in>set fs. fr f = Some (file_ref_of rnd fs f)"
    and br: "\<forall>f\<in>set fs. br f = Some (build_ref_of rnd fs f)"
    by simp_all
  have l: "?l < length fs" "fs ! ?l = fs ! i"
    "\<forall>k. k < length fs \<and> fs ! k = fs ! i \<longrightarrow> k \<le> ?l"
    using last_index_props [OF mem] by simp_all
  have f1: "fr (fs ! i) = Some (generate_uuid (rnd (2 * ?l)))"
    using fr mem by (simp add: file_ref_of_def)
  have f2: "br (fs ! i) = Some (generate_uuid (rnd (2 * ?l + 1)))"
    using br mem by (simp add: build_ref_of_def)
  have r1: "new_file_refs rnd fs ! i = file_ref_record (generate_uuid (rnd (2 * ?l))) (fs ! i)"
    "new_file_refs rnd fs ! j = new_file_refs rnd fs ! i"
    using assms(2,3,4) by (simp_all add: new_file_refs_def file_ref_of_def)
  have r2: "new_children rnd fs ! i = child_record (generate_uuid (rnd (2 * ?l))) (fs ! i)"
    "new_children rnd fs ! j = new_children rnd fs ! i"
    using assms(2,3,4) by (simp_all add: new_children_def file_ref_of_def)
  have r3: "new_build_files rnd fs ! i = build_file_record (generate_uuid (rnd (2 * ?l + 1))) (fs ! i)"
    "new_build_files rnd fs ! j = new_build_files rnd fs ! i"
    using assms(2,3,4) by (simp_all add: new_build_files_def build_ref_of_def)
  have r4: "new_pbx_build_files rnd fs ! i
      = pbx_build_file_record (generate_uuid (rnd (2 * ?l + 1))) (generate_uuid (rnd (2 * ?l))) (fs ! i)"
    "new_pbx_build_files rnd fs ! j = new_pbx_build_files rnd fs ! i"
    using assms(2,3,4) by (simp_all add: new_pbx_build_files_def build_ref_of_def file_ref_of_def)
  show ?thesis
    using l f1 f2 r1 r2 r3 r4 render_new_ref [OF fr] render_new_child [OF fr]
      render_new_build [OF br] render_new_pbx_build [OF fr br]
    by blast
qed

text \<open>
  C2: if the first locate step that fails is any of the four (file-reference section,
  Models group, Sources build phase, build-file section, each searched in the text the
  steps before it produced), \<open>add_files_to_pbxproj\<close> returns \<open>False\<close> and every
  file is as it was before the call: nothing has been written.
\<close>

theorem failed_lookup_writes_nothing:
  assumes "files w pbxproj_path = Some content"
    and "generate_ids rnd 0 fs Map.empty Map.empty = (fr, br)"
    and "search_section ''PBXFileReference'' content = None
       \<or> (\<exists>c1. insert_file_refs fr fs content = Inr c1
            \<and> (search_list_record ''Models'' ''children'' c1 = None
               \<or> (\<exists>c2. insert_children fr fs c1 = Inr c2
                    \<and> (search_list_record ''Sources'' ''files'' c2 = None
                       \<or> (\<exists>c3. insert_build_files br fs c2 = Inr c3
                            \<and> search_section ''PBXBuildFile'' c3 = None)))))"
  shows "fst (add_files_to_pbxproj rnd pbxproj_path fs w) = Inr False
       \<and> files (snd (add_files_to_pbxproj rnd pbxproj_path fs w)) = files w"
proof -
  from generate_ids_start [OF assms(2)]
  have fr: "\<forall>f\<in>set fs. fr f = Some (file_ref_of rnd fs f)"
    and br: "\<forall>f\<in>set fs. br f = Some (build_ref_of rnd fs f)"
    by simp_all
  from assms(3) have "\<exists>r. patch rnd content fs = Inl (Could_not_find r)"
    unfolding patch_steps [OF assms(2)] and_then_Inl_iff
      insert_file_refs_Inl [OF fr] insert_children_Inl [OF fr] insert_build_files_Inl [OF br]
      insert_pbx_build_files_Inl [OF fr br]
    by blast
  then obtain r where "patch rnd content fs = Inl (Could_not_find r)" ..
  then show ?thesis
    using assms(1) by (simp add: add_files_to_pbxproj_def print_def)
qed

lemma add_files_success:
  assumes "files w pbxproj_path = Some content" and "patch rnd content fs = Inr out"
  shows "add_files_to_pbxproj rnd pbxproj_path fs w =
     (Inr True, print (''Successfully added '' @ str (length fs) @ '' files to Xcode project'')
                  (write_file pbxproj_path out w))"
  using assms by (simp add: add_files_to_pbxproj_def)

lemma add_files_failure:
  assumes "files w pbxproj_path = Some content" and "patch rnd content fs = Inl (Could_not_find r)"
  shows "add_files_to_pbxproj rnd pbxproj_path fs w = (Inr False, print (message r) w)"
  using assms by (simp add: add_files_to_pbxproj_def)

lemma add_files_True_iff:
  "fst (add_files_to_pbxproj rnd path fs w) = Inr True \<longleftrightarrow>
     (\<exists>content out. files w path = Some content \<and> patch rnd content fs = Inr out)"
proof (cases "files w path")
  case None
  then show ?thesis by (simp add: add_files_to_pbxproj_def)
next
  case (Some content)
  show ?thesis
  proof (cases "patch rnd content fs")
    case (Inl e)
    then obtain r where "e = Could_not_find r" using patch_Inl by blast
    with Inl Some show ?thesis by (simp add: add_files_to_pbxproj_def)
  next
    case (Inr out)
    with Some show ?thesis by (simp add: add_files_to_pbxproj_def)
  qed
qed

text \<open>
  C4: after a run that returns \<open>True\<close>, the descriptor on disk is the text read with
  the four rendered fragments put in, one after the other, each at one offset of the
  text of the step before; every other character is kept, and so is every other file.
\<close>

theorem successful_run_only_splices:
  assumes "fst (add_files_to_pbxproj rnd path fs w) = Inr True"
  shows "\<exists>content out p1 p2 p3 p4 c1 c2 c3.
     files w path = Some content \<and>
     files (snd (add_files_to_pbxproj rnd path fs w)) = (files w)(path \<mapsto> out) \<and>
     p1 \<le> length content \<and> c1 = insert_at content p1 (concat (new_file_refs rnd fs)) \<and>
     p2 \<le> length c1 \<and> c2 = insert_at c1 p2 (concat (new_children rnd fs)) \<and>
     p3 \<le> length c2 \<and> c3 = insert_at c2 p3 (concat (new_build_files rnd fs)) \<and>
     p4 \<le> length c3 \<and> out = insert_at c3 p4 (concat (new_pbx_build_files rnd fs))"
proof -
  from assms obtain content out where f: "files w path = Some content"
    and p: "patch rnd content fs = Inr out"
    unfolding add_files_True_iff by blast
  have "files (snd (add_files_to_pbxproj rnd path fs w)) = (files w)(path \<mapsto> out)"
    unfolding add_files_success [OF f p] by (simp add: print_def write_file_def)
  with f patch_Inr_splices [OF p] show ?thesis by blast
qed

text \<open>
  C5: with the descriptor present, the script exits with status 0 when the four
  regions are located and patched, and the patched text is then on disk; it exits with
  status 1 when a region lookup fails, and the files are then unchanged.
\<close>

theorem exit_status:
  assumes "files w ''WigiAI.xcodeproj/project.pbxproj'' = Some content"
  shows "(patch rnd content [''Activity.swift'', ''ActivityMigration.swift''] = Inr out \<longrightarrow>
            fst (main rnd w) = Exit 0
            \<and> files (snd (main rnd w)) = (files w)(''WigiAI.xcodeproj/project.pbxproj'' \<mapsto> out))
       \<and> (patch rnd content [''Activity.swift'', ''ActivityMigration.swift''] = Inl (Could_not_find r) \<longrightarrow>
            fst (main rnd w) = Exit 1 \<and> files (snd (main rnd w)) = files w)"
proof (intro conjI impI)
  assume p: "patch rnd content [''Activity.swift'', ''ActivityMigration.swift''] = Inr out"
  show "fst (main rnd w) = Exit 0"
    unfolding main_def add_files_success [OF assms p] by simp
  show "files (snd (main rnd w)) = (files w)(''WigiAI.xcodeproj/project.pbxproj'' \<mapsto> out)"
    unfolding main_def add_files_success [OF assms p] by (simp add: print_def write_file_def)
next
  assume p: "patch rnd content [''Activity.swift'', ''ActivityMigration.swift''] = Inl (Could_not_find r)"
  show "fst (main rnd w) = Exit 1"
    unfolding main_def add_files_failure [OF assms p] by simp
  show "files (snd (main rnd w)) = files w"
    unfolding main_def add_files_failure [OF assms p] by (simp add: print_def)
qed

section \<open>Several matching records\<close>

lemma search_list_record_leftmost:
  assumes "i \<le> length c" and "match_list_record label field (drop i c) \<noteq> None"
  shows "\<exists>st p e. search_list_record label field c = Some (st, p, e) \<and> st \<le> i
       \<and> (\<forall>k. k < st \<longrightarrow> match_list_record label field (drop k c) = None)
       \<and> match_list_record label field (drop st c) = Some (p - st, e - st)
       \<and> st \<le> p \<and> p \<le> e \<and> e \<le> length c"
proof -
  have "scan (match_list_record label field) c \<noteq> None"
  proof
    assume "scan (match_list_record label field) c = None"
    then have "match_list_record label field (drop i c) = None"
      unfolding scan_None_iff using assms(1) by simp
    with assms(2) show False by simp
  qed
  then obtain a where "scan (match_list_record label field) c = Some a"
    by (cases "scan (match_list_record label field) c") simp_all
  then obtain st g2 e' where sc: "scan (match_list_record label field) c = Some (st, g2, e')"
    by (cases a) simp
  then have s: "search_list_record label field c = Some (st, st + g2, st + e')"
    by (simp add: search_list_record_def)
  from sc have least: "\<forall>k. k < st \<longrightarrow> match_list_record label field (drop k c) = None"
    and m: "match_list_record label field (drop st c) = Some (g2, e')"
    unfolding scan_Some_iff by simp_all
  have 1: "st \<le> i"
  proof (rule ccontr)
    assume "\<not> st \<le> i"
    then have "i < st" by simp
    with least have "match_list_record label field (drop i c) = None" by simp
    with assms(2) show False by simp
  qed
  have 2: "e' = g2 + 2" "st + e' \<le> length c"
    using search_list_record_Some [OF s] by simp_all
  have 3: "match_list_record label field (drop st c) = Some (st + g2 - st, st + e' - st)"
    using m by simp
  have 4: "st \<le> st + g2" by simp
  have 5: "st + g2 \<le> st + e'" using 2(1) by simp
  show ?thesis
    apply (rule exI [of _ st])
    apply (rule exI [of _ "st + g2"])
    apply (rule exI [of _ "st + e'"])
    apply (intro conjI)
    apply (rule s, rule 1, rule least, rule 3, rule 4, rule 5, rule 2(2))
    done
qed

text \<open>
  C10: when the pattern of the Models group (or of the Sources build phase) matches at
  two offsets \<open>i < j\<close> of the text, the search returns the match at the least
  matching offset, the entries go in at the end of the list captured by that match
  alone, and the step succeeds: it returns the new text, not an error.
\<close>

theorem leftmost_record_only:
  assumes "generate_ids rnd 0 fs Map.empty Map.empty = (fr, br)"
    and "i < j" and "j \<le> length c"
    and "match_list_record label field (drop i c) \<noteq> None"
    and "match_list_record label field (drop j c) \<noteq> None"
  shows "\<exists>st p e. search_list_record label field c = Some (st, p, e) \<and> st \<le> i
       \<and> (\<forall>k. k < st \<longrightarrow> match_list_record label field (drop k c) = None)
       \<and> match_list_record label field (drop st c) = Some (p - st, e - st)
       \<and> st \<le> p \<and> p \<le> e
       \<and> (label = ''Models'' \<and> field = ''children'' \<longrightarrow>
            insert_children fr fs c = Inr (insert_at c p (concat (new_children rnd fs))))
       \<and> (label = ''Sources'' \<and> field = ''files'' \<longrightarrow>
            insert_build_files br fs c = Inr (insert_at c p (concat (new_build_files rnd fs))))"
proof -
  from generate_ids_start [OF assms(1)]
  have fr: "\<forall>f\<in>set fs. fr f = Some (file_ref_of rnd fs f)"
    and br: "\<forall>f\<in>set fs. br f = Some (build_ref_of rnd fs f)"
    by simp_all
  have "i \<le> length c" using assms(2,3) by simp
  from search_list_record_leftmost [OF this assms(4)] obtain st p e where
    s: "search_list_record label field c = Some (st, p, e)" and rest: "st \<le> i"
      "\<forall>k. k < st \<longrightarrow> match_list_record label field (drop k c) = None"
      "match_list_record label field (drop st c) = Some (p - st, e - st)" "st \<le> p" "p \<le> e"
    by blast
  have m: "insert_children fr fs c = Inr (insert_at c p (concat (new_children rnd fs)))"
    if "label = ''Models''" "field = ''children''"
    unfolding insert_children_eq [OF fr] using s that by simp
  have b: "insert_build_files br fs c = Inr (insert_at c p (concat (new_build_files rnd fs)))"
    if "label = ''Sources''" "field = ''files''"
    unfolding insert_build_files_eq [OF br] using s that by simp
  show ?thesis
    apply (rule exI [of _ st])
    apply (rule exI [of _ p])
    apply (rule exI [of _ e])
    using s rest m b apply simp
    done
qed

section \<open>Empty list fields\<close>

lemma occurrences_iff: "j \<in> set (occurrences l s) \<longleftrightarrow> j \<le> length s \<and> startswith (drop j s) l"
  by (auto simp: occurrences_def simp del: upt_Suc)

lemma startswith_takeWhile:
  assumes "startswith (drop m r) key" and "m \<le> length (takeWhile P r)" and "\<forall>x\<in>set key. P x"
  shows "startswith (drop m (takeWhile P r)) key"
proof -
  let ?tw = "takeWhile P r" and ?dw = "dropWhile P r"
  let ?A = "drop m ?tw"
  have r: "r = ?tw @ ?dw" by simp
  have d: "drop m r = ?A @ ?dw"
    using assms(2) by (subst r) (simp del: takeWhile_dropWhile_id)
  have k: "take (length key) (?A @ ?dw) = key"
    using assms(1) unfolding d startswith_iff .
  show ?thesis
  proof (cases "length key \<le> length ?A")
    case True
    with k show ?thesis by (simp add: startswith_iff)
  next
    case False
    then have pos: "0 < length key - length ?A" by simp
    have dne: "?dw \<noteq> []"
    proof
      assume "?dw = []"
      with k have "take (length key) ?A = key" by simp
      then have "length (take (length key) ?A) = length key"
        by simp
      then have "length key \<le> length ?A"
        by simp
      with False show False by simp
    qed
    then obtain x xs where dw: "?dw = x # xs"
      by (cases ?dw) simp_all
    then have "\<not> P x"
      by (simp add: dropWhile_eq_Cons_conv)
    obtain n where n: "length key - length ?A = Suc n"
      using pos by (auto simp: gr0_conv_Suc)
    have "key = ?A @ take (Suc n) (x # xs)"
      using k False n dw by simp
    then have e: "key = ?A @ x # take n xs"
      by simp
    have "x \<in> set (?A @ x # take n xs)"
      by simp
    then have "x \<in> set key"
      using e by simp
    with assms(3) \<open>\<not> P x\<close> show ?thesis by blast
  qed
qed

lemma empty_list_no_match:
  assumes c: "c = pre @ ident @ ('' /* '' @ label @ '' */ = {'') @ body @ (field @ '' = ('') @ '');'' @ post"
    and ident: "length ident = 24"
    and head_once: "occurrences ('' /* '' @ label @ '' */ = {'') c = [length pre + 24]"
    and key_once: "occurrences (field @ '' = ('')
        (takeWhile (\<lambda>x. x \<noteq> CHR ''}'') (body @ (field @ '' = ('') @ '');'' @ post)) = [length body]"
    and field: "CHR ''}'' \<notin> set field"
  shows "search_list_record label field c = None"
proof -
  let ?head = "'' /* '' @ label @ '' */ = {''" and ?key = "field @ '' = (''"
  let ?rest = "body @ ?key @ '');'' @ post"
  let ?P = "\<lambda>x. x \<noteq> CHR ''}''"
  have no: "match_list_record label field (drop j c) = None" if j: "j \<le> length c" for j
  proof (rule ccontr)
    assume "match_list_record label field (drop j c) \<noteq> None"
    then obtain g2 e where "match_list_record label field (drop j c) = Some (g2, e)"
      by (cases "match_list_record label field (drop j c)") auto
    from match_list_record_Some [OF this] obtain ident' body' lst post' where
      d: "drop j c = ident' @ ?head @ body' @ ?key @ lst @ '');'' @ post'"
      and i': "length ident' = 24" and b': "CHR ''}'' \<notin> set body'"
      and lst: "lst \<noteq> []" "CHR '')'' \<notin> set lst"
      by blast
    have "drop (j + 24) c = drop 24 (drop j c)"
      by (simp add: add.commute)
    also have "\<dots> = ?head @ body' @ ?key @ lst @ '');'' @ post'"
      unfolding d using i' by simp
    finally have d24: "drop (j + 24) c = ?head @ body' @ ?key @ lst @ '');'' @ post'" .
    then have sw: "startswith (drop (j + 24) c) ?head"
      by (simp only: startswith_append)
    have "length (drop j c) \<ge> 24"
      unfolding d using i' by simp
    then have "j + 24 \<le> length c" by simp
    with sw have "j + 24 \<in> set (occurrences ?head c)"
      unfolding occurrences_iff by simp
    then have j: "j = length pre"
      unfolding head_once by simp
    have "drop (length pre + 24) c = ?head @ ?rest"
      by (subst c) (simp add: ident)
    with d24 j have rest: "?rest = body' @ ?key @ lst @ '');'' @ post'"
      by simp
    let ?m = "length body'"
    have "takeWhile ?P ?rest = body' @ takeWhile ?P (?key @ lst @ '');'' @ post')"
      unfolding rest using b' by (intro takeWhile_append2) auto
    then have m_le: "?m \<le> length (takeWhile ?P ?rest)"
      by simp
    have "drop ?m ?rest = ?key @ lst @ '');'' @ post'"
      unfolding rest by simp
    then have "startswith (drop ?m ?rest) ?key"
      by (simp only: startswith_append)
    moreover have "\<forall>x\<in>set ?key. ?P x"
      using field by auto
    ultimately have "startswith (drop ?m (takeWhile ?P ?rest)) ?key"
      using m_le by (intro startswith_takeWhile)
    with m_le have "?m \<in> set (occurrences ?key (takeWhile ?P ?rest))"
      unfolding occurrences_iff by simp
    then have m: "?m = length body"
      unfolding key_once by simp
    have "drop ?m ?rest = ?key @ '');'' @ post"
      unfolding m by simp
    with \<open>drop ?m ?rest = ?key @ lst @ '');'' @ post'\<close>
    have "'');'' @ post = lst @ '');'' @ post'"
      by simp
    with lst(1) have "hd lst = CHR '')''"
      by (cases lst) simp_all
    with lst show False
      by (cases lst) simp_all
  qed
  have "scan (match_list_record label field) c = None"
    unfolding scan_None_iff using no by simp
  then show ?thesis
    by (simp add: search_list_record_def)
qed

section \<open>Equal tokens\<close>

lemma hex_digit_inj_all:
  "\<forall>n \<in> set [0..<16]. \<forall>m \<in> set [0..<16].
     upper_char (hex_digit n) = upper_char (hex_digit m) \<longrightarrow> n = m"
  by code_simp

lemma hex_digit_inj:
  "n < 16 \<Longrightarrow> m < 16 \<Longrightarrow> upper_char (hex_digit n) = upper_char (hex_digit m) \<Longrightarrow> n = m"
  using hex_digit_inj_all by simp

lemma kept_nibbles: "set (take 24 (rev [0..<32])) = {8..<32}"
proof -
  have "take 24 (rev [0..<32]) = rev (drop 8 [0..<32])"
    by (simp add: take_rev del: upt_Suc)
  also have "\<dots> = rev [8..<32]"
    by (simp add: drop_upt del: upt_Suc)
  finally have "set (take 24 (rev [0..<32])) = set (rev [8..<32])"
    by (simp only:)
  then show ?thesis
    by (simp only: set_rev set_upt)
qed

lemma generate_uuid_eq_nibbles:
  "generate_uuid u = generate_uuid v \<longleftrightarrow> (\<forall>i\<in>{8..<32}. nibble u i = nibble v i)"
proof -
  have "generate_uuid u = generate_uuid v \<longleftrightarrow>
        (\<forall>i\<in>{8..<32}. upper_char (hex_digit (nibble u i)) = upper_char (hex_digit (nibble v i)))"
    unfolding generate_uuid_eq map_eq_conv kept_nibbles ..
  also have "\<dots> \<longleftrightarrow> (\<forall>i\<in>{8..<32}. nibble u i = nibble v i)"
    using hex_digit_inj [OF nibble_less nibble_less] by metis
  finally show ?thesis .
qed

lemma nibble_bit:
  assumes "b < 4"
  shows "bit u (4 * i + b) \<longleftrightarrow> bit (word_of_nat (nibble u i) :: uuid) b"
proof -
  have "(word_of_nat (nibble u i) :: uuid) = drop_bit (4 * i) u AND 15"
    by (simp add: nibble_def)
  moreover have "bit (15 :: uuid) b"
  proof -
    have m: "mask 4 = (15 :: uuid)" by (simp add: mask_eq_exp_minus_1)
    have "bit (mask 4 :: uuid) b" using assms by (simp add: bit_mask_iff)
    then show ?thesis by (simp only: m)
  qed
  ultimately show ?thesis
    by (simp add: bit_and_iff bit_drop_bit_eq)
qed

text \<open>
  C7 (as amended): two calls return the same token exactly when the two UUIDs drawn
  agree in their first 96 bits, the 24 hexadecimal digits that are kept. The tokens of
  a run are therefore pairwise different whenever the UUIDs drawn differ pairwise in
  those bits; nothing in the code checks for a repetition.
\<close>

theorem generate_uuid_eq_iff:
  "generate_uuid u = generate_uuid v \<longleftrightarrow> drop_bit 32 u = drop_bit 32 v"
proof
  assume "generate_uuid u = generate_uuid v"
  then have nib: "\<forall>i\<in>{8..<32}. nibble u i = nibble v i"
    by (simp only: generate_uuid_eq_nibbles)
  show "drop_bit 32 u = drop_bit 32 v"
  proof (rule bit_word_eqI)
    fix n assume "n < LENGTH(128)"
    show "bit (drop_bit 32 u) n \<longleftrightarrow> bit (drop_bit 32 v) n"
    proof (cases "n < 96")
      case True
      let ?i = "(32 + n) div 4" and ?b = "(32 + n) mod 4"
      have i: "?i \<in> {8..<32}" using True by auto
      have n: "4 * ?i + ?b = 32 + n" by simp
      have b: "?b < 4" by simp
      have "nibble u ?i = nibble v ?i" using nib i by blast
      then have "bit u (4 * ?i + ?b) \<longleftrightarrow> bit v (4 * ?i + ?b)"
        by (simp only: nibble_bit [OF b])
      then have "bit u (32 + n) \<longleftrightarrow> bit v (32 + n)"
        by (simp only: n)
      then show ?thesis by (simp add: bit_drop_bit_eq)
    next
      case False
      then have "128 \<le> 32 + n" by simp
      then have "\<not> bit u (32 + n)" "\<not> bit v (32 + n)"
        by (auto dest: bit_imp_le_length)
      then show ?thesis by (simp add: bit_drop_bit_eq)
    qed
  qed
next
  assume eq: "drop_bit 32 u = drop_bit 32 v"
  have "nibble u i = nibble v i" if "i \<in> {8..<32}" for i
  proof -
    from that have "8 \<le> i" by simp
    then have k: "4 * i = 4 * (i - 8) + 32" by arith
    have d: "drop_bit (4 * i) x = drop_bit (4 * (i - 8)) (drop_bit 32 x)" for x :: uuid
      by (subst k) (simp only: drop_bit_drop_bit)
    have "drop_bit (4 * i) u = drop_bit (4 * (i - 8)) (drop_bit 32 u)"
      by (rule d)
    also have "\<dots> = drop_bit (4 * (i - 8)) (drop_bit 32 v)"
      by (simp only: eq)
    also have "\<dots> = drop_bit (4 * i) v"
      by (rule d [symmetric])
    finally show ?thesis by (simp add: nibble_def)
  qed
  then show "generate_uuid u = generate_uuid v"
    by (simp only: generate_uuid_eq_nibbles) simp
qed

section \<open>Records of a successful run\<close>

text \<open>
  C1: when the four patterns are found and the run produces an output, the four lists
  the script renders have exactly one record per filename each; at every index the
  file-reference record and the group-child record carry the reference identifier of
  the filename, the build-phase record carries its membership identifier, and the
  build-file declaration carries the membership identifier as its own and the
  reference identifier as its \<open>fileRef\<close>; the output is the input with the four lists
  put in, one after the other.
\<close>

theorem patch_adds_cross_referenced_records:
  assumes "patch rnd content fs = Inr out"
    and "generate_ids rnd 0 fs Map.empty Map.empty = (fr, br)"
  shows "\<exists>rs cs bs ps.
     render_all (new_ref fr) fs = Inr rs \<and> render_all (new_child fr) fs = Inr cs \<and>
     render_all (new_build br) fs = Inr bs \<and> render_all (new_pbx_build fr br) fs = Inr ps \<and>
     length rs = length fs \<and> length cs = length fs \<and>
     length bs = length fs \<and> length ps = length fs \<and>
     (\<forall>i. i < length fs \<longrightarrow>
        (\<exists>ref bref. fr (fs ! i) = Some ref \<and> br (fs ! i) = Some bref \<and>
           rs ! i = file_ref_record ref (fs ! i) \<and>
           cs ! i = child_record ref (fs ! i) \<and>
           bs ! i = build_file_record bref (fs ! i) \<and>
           ps ! i = pbx_build_file_record bref ref (fs ! i))) \<and>
     (\<exists>p1 p2 p3 p4 c1 c2 c3.
        p1 \<le> length content \<and> c1 = insert_at content p1 (concat rs) \<and>
        p2 \<le> length c1 \<and> c2 = insert_at c1 p2 (concat cs) \<and>
        p3 \<le> length c2 \<and> c3 = insert_at c2 p3 (concat bs) \<and>
        p4 \<le> length c3 \<and> out = insert_at c3 p4 (concat ps))"
proof -
  from generate_ids_start [OF assms(2)]
  have fr: "\<forall>f\<in>set fs. fr f = Some (file_ref_of rnd fs f)"
    and br: "\<forall>f\<in>set fs. br f = Some (build_ref_of rnd fs f)"
    by simp_all
  have ids: "\<exists>ref bref. fr (fs ! i) = Some ref \<and> br (fs ! i) = Some bref \<and>
           new_file_refs rnd fs ! i = file_ref_record ref (fs ! i) \<and>
           new_children rnd fs ! i = child_record ref (fs ! i) \<and>
           new_build_files rnd fs ! i = build_file_record bref (fs ! i) \<and>
           new_pbx_build_files rnd fs ! i = pbx_build_file_record bref ref (fs ! i)"
    if "i < length fs" for i
  proof -
    have "fs ! i \<in> set fs" using that by simp
    with fr br have "fr (fs ! i) = Some (file_ref_of rnd fs (fs ! i))"
      "br (fs ! i) = Some (build_ref_of rnd fs (fs ! i))"
      by simp_all
    then show ?thesis
      using that
      by (simp add: new_file_refs_def new_children_def new_build_files_def new_pbx_build_files_def)
  qed
  have len: "length (new_file_refs rnd fs) = length fs" "length (new_children rnd fs) = length fs"
    "length (new_build_files rnd fs) = length fs" "length (new_pbx_build_files rnd fs) = length fs"
    by (simp_all add: new_file_refs_def new_children_def new_build_files_def new_pbx_build_files_def)
  show ?thesis
    apply (rule exI [of _ "new_file_refs rnd fs"])
    apply (rule exI [of _ "new_children rnd fs"])
    apply (rule exI [of _ "new_build_files rnd fs"])
    apply (rule exI [of _ "new_pbx_build_files rnd fs"])
    apply (intro conjI)
             apply (rule render_new_ref [OF fr])
            apply (rule render_new_child [OF fr])
           apply (rule render_new_build [OF br])
          apply (rule render_new_pbx_build [OF fr br])
         apply (rule len)+
     apply (use ids in blast)
    apply (rule patch_Inr_splices [OF assms(1)])
    done
qed

lemma section_insert_pos:
  assumes "search_section name c = Some (st, e)"
  shows "startswith (drop (e - length (end_marker name)) c) (end_marker name)"
    and "e - length (end_marker name @ [NL]) + 1 = e - length (end_marker name)"
    and "e - length (end_marker name @ [NL]) < length c"
proof -
  from search_section_Some [OF assms] obtain pre mid post where
    c: "c = pre @ begin_marker name @ mid @ end_marker name @ post"
    and e: "e = length pre + length (begin_marker name) + length mid + length (end_marker name)"
    by blast
  let ?A = "pre @ begin_marker name @ mid"
  have "c = ?A @ end_marker name @ post" using c by simp
  moreover have "e - length (end_marker name) = length ?A" using e by simp
  ultimately have "drop (e - length (end_marker name)) c = end_marker name @ post"
    by (metis append_eq_conv_conj)
  then show "startswith (drop (e - length (end_marker name)) c) (end_marker name)"
    by (simp only: startswith_append)
  have "length (end_marker name) + 1 \<le> e"
    using section_end_bound(1) [OF assms] .
  then show "e - length (end_marker name @ [NL]) + 1 = e - length (end_marker name)"
    by simp
  have "0 < e" "e \<le> length c"
    using section_end_bound [OF assms] by simp_all
  then show "e - length (end_marker name @ [NL]) < length c"
    by simp
qed

text \<open>
  C8: a text whose only record annotated \<open>Models\<close> has \<open>children = ();\<close> as the only
  \<open>children\<close> field before its closing brace is not matched by the locator, although
  the record is there: the run prints that the Models group could not be found and
  returns \<open>False\<close>. The same holds for the record annotated \<open>Sources\<close> with
  \<open>files = ();\<close>.
\<close>

theorem empty_list_field_not_found:
  assumes "files w path = Some content"
    and "generate_ids rnd 0 fs Map.empty Map.empty = (fr, br)"
    and "insert_file_refs fr fs content = Inr c1"
    and "length ident = 24"
  shows "(c1 = pre @ ident @ '' /* Models */ = {'' @ body @ ''children = ();'' @ post
          \<and> occurrences '' /* Models */ = {'' c1 = [length pre + 24]
          \<and> occurrences ''children = (''
               (takeWhile (\<lambda>x. x \<noteq> CHR ''}'') (body @ ''children = ();'' @ post)) = [length body]
        \<longrightarrow> search_list_record ''Models'' ''children'' c1 = None
          \<and> add_files_to_pbxproj rnd path fs w
              = (Inr False, print ''Error: Could not find Models group'' w))
       \<and> (insert_children fr fs c1 = Inr c2
          \<and> c2 = pre @ ident @ '' /* Sources */ = {'' @ body @ ''files = ();'' @ post
          \<and> occurrences '' /* Sources */ = {'' c2 = [length pre + 24]
          \<and> occurrences ''files = (''
               (takeWhile (\<lambda>x. x \<noteq> CHR ''}'') (body @ ''files = ();'' @ post)) = [length body]
        \<longrightarrow> search_list_record ''Sources'' ''files'' c2 = None
          \<and> add_files_to_pbxproj rnd path fs w
              = (Inr False, print ''Error: Could not find Sources build phase'' w))"
proof (intro conjI impI; elim conjE)
  from generate_ids_start [OF assms(2)]
  have fr: "\<forall>f\<in>set fs. fr f = Some (file_ref_of rnd fs f)"
    and br: "\<forall>f\<in>set fs. br f = Some (build_ref_of rnd fs f)"
    by simp_all
  {
    assume c: "c1 = pre @ ident @ '' /* Models */ = {'' @ body @ ''children = ();'' @ post"
      and h: "occurrences '' /* Models */ = {'' c1 = [length pre + 24]"
      and k: "occurrences ''children = (''
               (takeWhile (\<lambda>x. x \<noteq> CHR ''}'') (body @ ''children = ();'' @ post)) = [length body]"
    show s: "search_list_record ''Models'' ''children'' c1 = None"
      by (rule empty_list_no_match [where pre = pre and ident = ident and body = body and post = post])
        (use c h k assms(4) in simp_all)
    then have "insert_children fr fs c1 = Inl (Could_not_find Models_group)"
      unfolding insert_children_Inl [OF fr] by simp
    then have "patch rnd content fs = Inl (Could_not_find Models_group)"
      unfolding patch_steps [OF assms(2)] and_then_Inl_iff using assms(3) by simp
    from add_files_failure [OF assms(1) this]
    show "add_files_to_pbxproj rnd path fs w
              = (Inr False, print ''Error: Could not find Models group'' w)"
      by (simp add: message_def)
  }
  {
    assume i: "insert_children fr fs c1 = Inr c2"
      and c: "c2 = pre @ ident @ '' /* Sources */ = {'' @ body @ ''files = ();'' @ post"
      and h: "occurrences '' /* Sources */ = {'' c2 = [length pre + 24]"
      and k: "occurrences ''files = (''
               (takeWhile (\<lambda>x. x \<noteq> CHR ''}'') (body @ ''files = ();'' @ post)) = [length body]"
    show s: "search_list_record ''Sources'' ''files'' c2 = None"
      by (rule empty_list_no_match [where pre = pre and ident = ident and body = body and post = post])
        (use c h k assms(4) in simp_all)
    then have "insert_build_files br fs c2 = Inl (Could_not_find Sources_build_phase)"
      unfolding insert_build_files_Inl [OF br] by simp
    then have "patch rnd content fs = Inl (Could_not_find Sources_build_phase)"
      unfolding patch_steps [OF assms(2)] and_then_Inl_iff using assms(3) i by simp
    from add_files_failure [OF assms(1) this]
    show "add_files_to_pbxproj rnd path fs w
              = (Inr False, print ''Error: Could not find Sources build phase'' w)"
      by (simp add: message_def)
  }
qed

end
